theory Spec2Isabelle
  imports Main "HOL-Library.AList"
begin

section \<open>Python values and text primitives\<close>

text \<open>
  The chunker of \<^verbatim>\<open>src/processing/data_chunking.py\<close> works on Python strings, integers and
  dictionaries. A text is a \<^typ>\<open>string\<close> in which every \<^typ>\<open>char\<close> stands for one code
  point (so offsets and lengths count what Python's \<^verbatim>\<open>len\<close> counts, for texts whose code
  points are below 256); Python's unbounded integers are \<^typ>\<open>int\<close>; a dictionary is an
  association list in insertion order. The values a document can hold are \<^verbatim>\<open>None\<close>,
  booleans, integers, strings, lists and dictionaries.
\<close>

datatype pyval =
  VNone
  | VBool bool
  | VInt int
  | VStr string
  | VList "pyval list"
  | VDict "(string \<times> pyval) list"

datatype error = ValueError string | AttributeError string

text \<open>Python's truth value of an object, as used by \<^verbatim>\<open>if not x\<close> and \<^verbatim>\<open>x if x else y\<close>.\<close>

fun truthy :: "pyval \<Rightarrow> bool" where
  "truthy VNone = False"
| "truthy (VBool b) = b"
| "truthy (VInt i) = (i \<noteq> 0)"
| "truthy (VStr s) = (s \<noteq> [])"
| "truthy (VList xs) = (xs \<noteq> [])"
| "truthy (VDict d) = (d \<noteq> [])"

text \<open>
  The characters \<^verbatim>\<open>str.strip()\<close> removes: those for which \<^verbatim>\<open>str.isspace\<close> holds, here
  the ones below code point 256 (tab, line feed, vertical tab, form feed, carriage return,
  the four separators 0x1C to 0x1F, space, next line 0x85 and no-break space 0xA0).
\<close>

definition is_space :: "char \<Rightarrow> bool" where
  "is_space c \<longleftrightarrow> c \<in> set [CHR 0x09, CHR 0x0A, CHR 0x0B, CHR 0x0C, CHR 0x0D,
                              CHR 0x1C, CHR 0x1D, CHR 0x1E, CHR 0x1F, CHR 0x20,
                              CHR 0x85, CHR 0xA0]"

definition strip :: "string \<Rightarrow> string" where
  "strip s = rev (dropWhile is_space (rev (dropWhile is_space s)))"

text \<open>
  How Python reads a slice bound against a sequence of length \<open>n\<close>: a negative bound counts
  from the end, and every bound is clamped into \<open>0..n\<close>.
\<close>

definition adjust_index :: "int \<Rightarrow> int \<Rightarrow> int" where
  "adjust_index n i = (if i < 0 then max 0 (i + n) else min i n)"

text \<open>\<^verbatim>\<open>text[i:j]\<close>.\<close>

definition py_slice :: "string \<Rightarrow> int \<Rightarrow> int \<Rightarrow> string" where
  "py_slice s i j =
     (let lo = adjust_index (int (length s)) i;
          hi = adjust_index (int (length s)) j
      in take (nat (hi - lo)) (drop (nat lo) s))"

text \<open>
  The positions \<open>i\<close> with \<open>lo \<le> i\<close> at which \<open>sub\<close> occurs in \<open>s\<close> wholly before \<open>hi\<close>,
  in increasing order.
\<close>

definition occurrences :: "string \<Rightarrow> string \<Rightarrow> int \<Rightarrow> int \<Rightarrow> int list" where
  "occurrences s sub lo hi =
     filter (\<lambda>i. take (length sub) (drop (nat i) s) = sub) [lo..hi - int (length sub)]"

text \<open>
  \<^verbatim>\<open>s.rfind(sub, start, end)\<close>: the highest index at which \<open>sub\<close> occurs within
  \<^verbatim>\<open>s[start:end]\<close>, the bounds read as slice bounds, and \<open>-1\<close> when there is none.
\<close>

definition rfind :: "string \<Rightarrow> string \<Rightarrow> int \<Rightarrow> int \<Rightarrow> int" where
  "rfind s sub start endp =
     (let occ = occurrences s sub (adjust_index (int (length s)) start)
                                  (adjust_index (int (length s)) endp)
      in if occ = [] then - 1 else last occ)"

section \<open>The window splitter\<close>

text \<open>A raw window, the dictionary \<^verbatim>\<open>sliding_window_chunk\<close> appends for each window.\<close>

record raw_chunk =
  content :: string
  start_char :: int
  end_char :: int
  chunk_index :: int

text \<open>
  The \<^verbatim>\<open>for punct in ['. ', '? ', '! ']\<close> loop with its \<^verbatim>\<open>break\<close>: the first terminator
  whose \<^verbatim>\<open>rfind\<close> result is greater than \<open>start\<close> sets the break point to one past it;
  when none does, the break point stays what it was.
\<close>

fun sentence_break :: "string \<Rightarrow> int \<Rightarrow> int \<Rightarrow> int \<Rightarrow> string list \<Rightarrow> int" where
  "sentence_break text start endp break_point [] = break_point"
| "sentence_break text start endp break_point (punct # puncts) =
     (let bp = rfind text punct start endp
      in if bp > start then bp + 1
         else sentence_break text start endp break_point puncts)"

text \<open>Lines 64 to 81: the end of the window that starts at \<open>start\<close>.\<close>

definition window_end :: "string \<Rightarrow> int \<Rightarrow> int \<Rightarrow> int" where
  "window_end text chunk_size start =
     (let text_length = int (length text);
          endp = min (start + chunk_size) text_length
      in if endp < text_length then
           (let break_point = rfind text [CHR 0x0A, CHR 0x0A] start endp;
                break_point = (if break_point = - 1 \<or> break_point \<le> start
                               then rfind text [CHR 0x0A] start endp else break_point);
                break_point = (if break_point = - 1 \<or> break_point \<le> start
                               then sentence_break text start endp break_point
                                      [''. '', ''? '', ''! '']
                               else break_point)
            in if break_point > start then break_point else endp)
         else endp)"

text \<open>
  One iteration of the \<^verbatim>\<open>while\<close> loop (lines 64 to 95) on the loop's variables
  \<open>(start, chunk_index, chunks)\<close>.
\<close>

definition loop_body ::
  "string \<Rightarrow> int \<Rightarrow> int \<Rightarrow> int \<times> int \<times> raw_chunk list \<Rightarrow> int \<times> int \<times> raw_chunk list" where
  "loop_body text chunk_size overlap s =
     (case s of (start, chunk_idx, chunks) \<Rightarrow>
        let text_length = int (length text);
            endp = window_end text chunk_size start;
            chunk_content = strip (py_slice text start endp);
            (chunks', chunk_idx') =
               (if chunk_content \<noteq> []
                then (chunks @ [\<lparr>content = chunk_content, start_char = start,
                                 end_char = endp, chunk_index = chunk_idx\<rparr>],
                      chunk_idx + 1)
                else (chunks, chunk_idx));
            start' = (if endp < text_length then endp - overlap else text_length)
        in (start', chunk_idx', chunks'))"

text \<open>
  The \<^verbatim>\<open>while start < text_length\<close> loop. Nothing in the source bounds the number of
  iterations, so the loop is a partial function: \<open>None\<close> is a run that never leaves the loop.
\<close>

partial_function (option) chunk_loop ::
  "string \<Rightarrow> int \<Rightarrow> int \<Rightarrow> int \<times> int \<times> raw_chunk list \<Rightarrow> raw_chunk list option" where
  "chunk_loop text chunk_size overlap s =
     (if fst s < int (length text)
      then chunk_loop text chunk_size overlap (loop_body text chunk_size overlap s)
      else Some (snd (snd s)))"

declare chunk_loop.simps [code]

text \<open>
  \<^verbatim>\<open>sliding_window_chunk(text, chunk_size, overlap)\<close>. The result is \<open>None\<close> when the call
  does not return, \<open>Some (Inl e)\<close> when it raises \<open>e\<close>, and \<open>Some (Inr chunks)\<close> when it
  returns \<open>chunks\<close>. The argument is any Python value: \<^verbatim>\<open>not text\<close> is its truth value,
  and only a string has \<^verbatim>\<open>strip\<close>.
\<close>

definition sliding_window_chunk ::
  "pyval \<Rightarrow> int \<Rightarrow> int \<Rightarrow> (error + raw_chunk list) option" where
  "sliding_window_chunk text chunk_size overlap =
     (if chunk_size \<le> 0 then Some (Inl (ValueError ''chunk_size must be positive''))
      else if overlap < 0 \<or> overlap \<ge> chunk_size
        then Some (Inl (ValueError ''overlap must be >= 0 and < chunk_size''))
      else if \<not> truthy text then Some (Inr [])
      else case text of
        VStr s \<Rightarrow>
          if strip s = [] then Some (Inr [])
          else map_option Inr (chunk_loop s chunk_size overlap (0, 0, []))
      | _ \<Rightarrow> Some (Inl (AttributeError ''strip'')))"

text \<open>
  The loop's variables at the head of the \<^verbatim>\<open>while\<close> loop, over all iterations of the call
  on the text \<open>t\<close>: the initial \<open>(0, 0, [])\<close> and what an iteration entered under the loop
  condition makes of them.
\<close>

inductive reachable ::
  "string \<Rightarrow> int \<Rightarrow> int \<Rightarrow> int \<times> int \<times> raw_chunk list \<Rightarrow> bool"
  for t :: string and chunk_size :: int and overlap :: int where
  reach_init: "reachable t chunk_size overlap (0, 0, [])"
| reach_step:
    "reachable t chunk_size overlap s \<Longrightarrow> fst s < int (length t) \<Longrightarrow>
     reachable t chunk_size overlap (loop_body t chunk_size overlap s)"

text \<open>Position \<open>p\<close> lies in the half-open range of one of the windows.\<close>

definition covers :: "raw_chunk list \<Rightarrow> int \<Rightarrow> bool" where
  "covers chunks p = list_ex (\<lambda>c. start_char c \<le> p \<and> p < end_char c) chunks"

section \<open>Documents and chunks\<close>

text \<open>
  The dataclass \<^verbatim>\<open>Chunk\<close>: the four entries of a raw window, the document's
  \<^verbatim>\<open>filename\<close> and \<^verbatim>\<open>title\<close> (whatever values the document holds there), and
  \<^verbatim>\<open>metadata\<close>, a dictionary or \<^verbatim>\<open>None\<close>.
\<close>

record Chunk = raw_chunk +
  filename :: pyval
  title :: pyval
  metadata :: "(string \<times> pyval) list option"

text \<open>\<^verbatim>\<open>d.get(k, default)\<close>.\<close>

definition dict_get :: "(string \<times> pyval) list \<Rightarrow> string \<Rightarrow> pyval \<Rightarrow> pyval" where
  "dict_get d k dflt = (case map_of d k of Some v \<Rightarrow> v | None \<Rightarrow> dflt)"

text \<open>
  \<^verbatim>\<open>result.update(other)\<close>: each entry of \<open>other\<close>, in order, replaces the value of its
  key where the key is present and is appended otherwise.
\<close>

definition dict_update ::
  "(string \<times> pyval) list \<Rightarrow> (string \<times> pyval) list \<Rightarrow> (string \<times> pyval) list" where
  "dict_update d other = fold (\<lambda>(k, v). AList.update k v) other d"

text \<open>\<^verbatim>\<open>dataclasses.asdict(self)\<close>: one entry per field, in the order of declaration.\<close>

definition asdict :: "Chunk \<Rightarrow> (string \<times> pyval) list" where
  "asdict c =
     [(''content'', VStr (content c)),
      (''start_char'', VInt (start_char c)),
      (''end_char'', VInt (end_char c)),
      (''chunk_index'', VInt (chunk_index c)),
      (''filename'', filename c),
      (''title'', title c),
      (''metadata'', case metadata c of None \<Rightarrow> VNone | Some md \<Rightarrow> VDict md)]"

text \<open>
  \<^verbatim>\<open>Chunk.to_dict\<close>. The update and the deletion of the key \<^verbatim>\<open>metadata\<close> both stand under
  \<^verbatim>\<open>if self.metadata\<close>, which is false for \<^verbatim>\<open>None\<close> and for the empty dictionary.
\<close>

definition to_dict :: "Chunk \<Rightarrow> (string \<times> pyval) list" where
  "to_dict c =
     (let result = asdict c
      in case metadata c of
           None \<Rightarrow> result
         | Some md \<Rightarrow>
             if md \<noteq> [] then AList.delete ''metadata'' (dict_update result md)
             else result)"

definition chunks_to_dicts :: "Chunk list \<Rightarrow> (string \<times> pyval) list list" where
  "chunks_to_dicts chunks = map to_dict chunks"

text \<open>
  The \<^verbatim>\<open>metadata\<close> argument of the constructor call: \<^verbatim>\<open>metadata if metadata else None\<close>.
\<close>

definition metadata_or_none :: "(string \<times> pyval) list \<Rightarrow> (string \<times> pyval) list option" where
  "metadata_or_none md = (if md \<noteq> [] then Some md else None)"

text \<open>
  The \<^verbatim>\<open>for doc in documents\<close> loop of \<^verbatim>\<open>process_documents\<close>, with the list
  \<^verbatim>\<open>all_chunks\<close> passed along. An exception of the splitter ends the call, and so does a
  splitter call that does not return.
\<close>

fun process_loop ::
  "(string \<times> pyval) list list \<Rightarrow> int \<Rightarrow> int \<Rightarrow> Chunk list \<Rightarrow> (error + Chunk list) option" where
  "process_loop [] chunk_size overlap all_chunks = Some (Inr all_chunks)"
| "process_loop (doc # documents) chunk_size overlap all_chunks =
     (let doc_content = dict_get doc ''content'' (VStr [])
      in if \<not> truthy doc_content then process_loop documents chunk_size overlap all_chunks
         else
           let doc_filename = dict_get doc ''filename'' (VStr ''unknown'');
               doc_title = dict_get doc ''title'' VNone;
               doc_metadata =
                 filter (\<lambda>(k, v). k \<notin> set [''content'', ''filename'', ''title'']) doc
           in case sliding_window_chunk doc_content chunk_size overlap of
                None \<Rightarrow> None
              | Some (Inl e) \<Rightarrow> Some (Inl e)
              | Some (Inr raw_chunks) \<Rightarrow>
                  process_loop documents chunk_size overlap
                    (all_chunks @
                     map (\<lambda>raw_chunk.
                            \<lparr>content = content raw_chunk,
                             start_char = start_char raw_chunk,
                             end_char = end_char raw_chunk,
                             chunk_index = chunk_index raw_chunk,
                             filename = doc_filename,
                             title = doc_title,
                             metadata = metadata_or_none doc_metadata\<rparr>)
                         raw_chunks))"

definition process_documents ::
  "(string \<times> pyval) list list \<Rightarrow> int \<Rightarrow> int \<Rightarrow> (error + Chunk list) option" where
  "process_documents documents chunk_size overlap =
     process_loop documents chunk_size overlap []"

section \<open>Searching and slicing\<close>

text \<open>
  What \<^verbatim>\<open>rfind\<close> returns lies in the searched range, and the end of a window lies
  in the window the loop asked for.
\<close>

lemma occurrences_bounds:
  "i \<in> set (occurrences s sub lo hi) \<Longrightarrow> lo \<le> i \<and> i + int (length sub) \<le> hi"
  by (auto simp: occurrences_def)

lemma rfind_range:
  "rfind s sub st e = - 1 \<or>
   (adjust_index (int (length s)) st \<le> rfind s sub st e \<and>
    rfind s sub st e + int (length sub) \<le> adjust_index (int (length s)) e)"
proof (cases "occurrences s sub (adjust_index (int (length s)) st) (adjust_index (int (length s)) e) = []")
  case True
  then show ?thesis by (simp add: rfind_def)
next
  case False
  then have "last (occurrences s sub (adjust_index (int (length s)) st) (adjust_index (int (length s)) e))
     \<in> set (occurrences s sub (adjust_index (int (length s)) st) (adjust_index (int (length s)) e))"
    by (rule last_in_set)
  from occurrences_bounds [OF this] False show ?thesis by (simp add: rfind_def)
qed

lemma rfind_empty_range:
  "adjust_index (int (length s)) e - int (length sub) < adjust_index (int (length s)) st \<Longrightarrow>
   rfind s sub st e = - 1"
  by (simp add: rfind_def occurrences_def)

lemma rfind_after_start:
  assumes "0 \<le> st" and "st < rfind s sub st e" and "0 \<le> e"
  shows "rfind s sub st e + int (length sub) \<le> e"
proof -
  from assms have "rfind s sub st e \<noteq> - 1" by simp
  with rfind_range [of s sub st e]
  have "rfind s sub st e + int (length sub) \<le> adjust_index (int (length s)) e" by simp
  also have "\<dots> \<le> e" using \<open>0 \<le> e\<close> by (simp add: adjust_index_def)
  finally show ?thesis .
qed




lemma sentence_break_cases:
  "sentence_break tx st e bp ps = bp \<or>
   (\<exists>p\<in>set ps. st < rfind tx p st e \<and> sentence_break tx st e bp ps = rfind tx p st e + 1)"
  by (induction ps) (auto simp: Let_def)

lemma window_end_upper:
  assumes "0 \<le> st" and "st < int (length tx)" and "0 < cs"
  shows "st < window_end tx cs st \<and> window_end tx cs st \<le> min (st + cs) (int (length tx))"
proof -
  define e where "e = min (st + cs) (int (length tx))"
  define b1 where "b1 = rfind tx [CHR 0x0A, CHR 0x0A] st e"
  define b2 where "b2 = (if b1 = - 1 \<or> b1 \<le> st then rfind tx [CHR 0x0A] st e else b1)"
  define b3 where "b3 = (if b2 = - 1 \<or> b2 \<le> st
                         then sentence_break tx st e b2 [''. '', ''? '', ''! ''] else b2)"
  have e: "st < e" "0 \<le> e" using assms by (auto simp: e_def)
  have we: "window_end tx cs st = (if e < int (length tx) then (if b3 > st then b3 else e) else e)"
    by (simp add: window_end_def Let_def e_def b1_def b2_def b3_def)
  have r: "st < rfind tx p st e \<Longrightarrow> rfind tx p st e + int (length p) \<le> e" for p
    using rfind_after_start [of st tx p e] assms(1) e by simp
  have b1: "st < b1 \<Longrightarrow> b1 \<le> e" using r [of "[CHR 0x0A, CHR 0x0A]"] by (simp add: b1_def)
  have b2: "st < b2 \<Longrightarrow> b2 \<le> e" using r [of "[CHR 0x0A]"] b1 by (auto simp: b2_def split: if_splits)
  have sb: "st < sentence_break tx st e b2 [''. '', ''? '', ''! ''] \<Longrightarrow>
            sentence_break tx st e b2 [''. '', ''? '', ''! ''] \<le> e"
    using sentence_break_cases [of tx st e b2 "[''. '', ''? '', ''! '']"] b2
      r [of "''. ''"] r [of "''? ''"] r [of "''! ''"]
    by auto
  have b3: "st < b3 \<Longrightarrow> b3 \<le> e" using sb b2 by (auto simp: b3_def split: if_splits)
  show ?thesis using we b3 e by (auto simp: e_def)
qed

lemma window_end_before_end:
  "window_end tx cs st < int (length tx) \<Longrightarrow> st + cs < int (length tx)"
  by (auto simp: window_end_def Let_def split: if_splits)

text \<open>
  With a negative cursor \<open>start\<close> (no lower than \<open>- overlap\<close>, in a text longer than
  \<open>chunk_size\<close>) Python reads \<open>start\<close> from the end of the text: every search range and the
  slice of the window are empty. Every \<^verbatim>\<open>rfind\<close> gives \<open>-1\<close>, which is greater than a cursor
  below \<open>-1\<close>, so the sentence loop sets the break point to 0.
\<close>

lemma window_end_negative:
  assumes "st < 0" and "- ov \<le> st" and "ov < cs" and "cs < int (length tx)"
  shows "window_end tx cs st = (if st < - 1 then 0 else st + cs)"
proof -
  let ?n = "int (length tx)"
  have e: "min (st + cs) ?n = st + cs" "st + cs < ?n" "0 < st + cs" using assms by auto
  have lo: "adjust_index ?n st = st + ?n" using assms by (simp add: adjust_index_def)
  have hi: "adjust_index ?n (st + cs) = st + cs" using e by (simp add: adjust_index_def)
  have r: "rfind tx p st (st + cs) = - 1" for p
    by (rule rfind_empty_range) (use lo hi assms in simp)
  show ?thesis using e assms by (simp add: window_end_def Let_def r)
qed

lemma slice_negative:
  assumes "st < 0" and "- ov \<le> st" and "ov < cs" and "cs < int (length tx)"
  shows "py_slice tx st (window_end tx cs st) = []"
proof -
  let ?n = "int (length tx)"
  have lo: "adjust_index ?n st = st + ?n" using assms by (simp add: adjust_index_def)
  have "adjust_index ?n (window_end tx cs st) \<le> st + cs"
    using assms by (simp add: window_end_negative [OF assms] adjust_index_def)
  then show ?thesis using lo assms by (simp add: py_slice_def Let_def)
qed

lemma strip_empty_iff: "strip s = [] \<longleftrightarrow> (\<forall>c\<in>set s. is_space c)"
proof
  assume "strip s = []"
  then have a: "\<forall>c\<in>set (dropWhile is_space s). is_space c"
    by (simp add: strip_def dropWhile_eq_Nil_conv)
  have "dropWhile is_space s = []"
  proof (rule ccontr)
    assume n: "dropWhile is_space s \<noteq> []"
    then have "\<not> is_space (hd (dropWhile is_space s))" by (rule hd_dropWhile)
    moreover have "hd (dropWhile is_space s) \<in> set (dropWhile is_space s)" using n by simp
    ultimately show False using a by blast
  qed
  then show "\<forall>c\<in>set s. is_space c" by (simp add: dropWhile_eq_Nil_conv)
next
  assume "\<forall>c\<in>set s. is_space c"
  then show "strip s = []" by (auto simp: strip_def dest: set_dropWhileD)
qed

lemma length_strip: "length (strip s) \<le> length s"
proof -
  have "length (strip s) \<le> length (dropWhile is_space s)"
    using length_dropWhile_le [of is_space "rev (dropWhile is_space s)"] by (simp add: strip_def)
  also have "\<dots> \<le> length s" by (rule length_dropWhile_le)
  finally show ?thesis .
qed

lemma py_slice_inside:
  assumes "0 \<le> i" and "i \<le> j" and "j \<le> int (length s)"
  shows "py_slice s i j = take (nat (j - i)) (drop (nat i) s)"
  using assms by (simp add: py_slice_def adjust_index_def Let_def)

lemma py_slice_length:
  assumes "0 \<le> i" and "i \<le> j" and "j \<le> int (length s)"
  shows "int (length (py_slice s i j)) = j - i"
  using assms by (simp add: py_slice_inside)

lemma py_slice_nth:
  assumes "0 \<le> i" and "i \<le> p" and "p < j" and "j \<le> int (length s)"
  shows "s ! nat p \<in> set (py_slice s i j)"
proof -
  have "take (nat (j - i)) (drop (nat i) s) ! (nat p - nat i) = s ! nat p"
    using assms by (simp add: nat_diff_distrib nat_le_iff)
  moreover have "nat p - nat i < length (take (nat (j - i)) (drop (nat i) s))"
    using assms by simp
  ultimately have "s ! nat p \<in> set (take (nat (j - i)) (drop (nat i) s))"
    by (metis nth_mem)
  then show ?thesis using assms by (simp add: py_slice_inside)
qed

section \<open>The loop and its invariants\<close>

lemma loop_body_start:
  "fst (loop_body tx cs ov s) =
     (if window_end tx cs (fst s) < int (length tx) then window_end tx cs (fst s) - ov
      else int (length tx))"
  by (cases s) (simp add: loop_body_def Let_def split: prod.splits if_splits)

lemma loop_body_chunks:
  "snd (snd (loop_body tx cs ov s)) =
     (if strip (py_slice tx (fst s) (window_end tx cs (fst s))) \<noteq> []
      then snd (snd s) @
           [\<lparr>content = strip (py_slice tx (fst s) (window_end tx cs (fst s))),
             start_char = fst s, end_char = window_end tx cs (fst s),
             chunk_index = fst (snd s)\<rparr>]
      else snd (snd s))"
  by (cases s) (simp add: loop_body_def Let_def split: prod.splits if_splits)

lemma loop_body_index:
  "fst (snd (loop_body tx cs ov s)) =
     (if strip (py_slice tx (fst s) (window_end tx cs (fst s))) \<noteq> []
      then fst (snd s) + 1 else fst (snd s))"
  by (cases s) (simp add: loop_body_def Let_def split: prod.splits if_splits)

text \<open>
  A call that returns has left the loop in a reachable state, so what holds in every
  reachable state holds of the returned list.
\<close>

lemma chunk_loop_from_reachable:
  assumes "chunk_loop tx cs ov s = Some y" and "reachable tx cs ov s"
  shows "\<exists>s'. reachable tx cs ov s' \<and> \<not> fst s' < int (length tx) \<and> y = snd (snd s')"
proof -
  have "reachable tx cs ov s \<longrightarrow>
        (\<exists>s'. reachable tx cs ov s' \<and> \<not> fst s' < int (length tx) \<and> y = snd (snd s'))"
  proof (rule chunk_loop.raw_induct
      [where P = "\<lambda>t c o' s y. reachable t c o' s \<longrightarrow>
          (\<exists>s'. reachable t c o' s' \<and> \<not> fst s' < int (length t) \<and> y = snd (snd s'))",
        OF _ assms(1)], goal_cases)
    case (1 f t c o' s y)
    show ?case
    proof
      assume r: "reachable t c o' s"
      show "\<exists>s'. reachable t c o' s' \<and> \<not> fst s' < int (length t) \<and> y = snd (snd s')"
      proof (cases "fst s < int (length t)")
        case True
        with 1(2) have "f t c o' (loop_body t c o' s) = Some y" by simp
        moreover have "reachable t c o' (loop_body t c o' s)"
          using r True by (rule reach_step)
        ultimately show ?thesis using 1(1) by blast
      next
        case False
        with 1(2) have "y = snd (snd s)" by simp
        with r False show ?thesis by blast
      qed
    qed
  qed
  with assms(2) show ?thesis by blast
qed

lemma sliding_window_chunk_returns:
  assumes "sliding_window_chunk v cs ov = Some (Inr chunks)"
  shows "0 < cs \<and> 0 \<le> ov \<and> ov < cs \<and>
         (chunks = [] \<or>
          (\<exists>tx s. v = VStr tx \<and> strip tx \<noteq> [] \<and> reachable tx cs ov s \<and>
                  \<not> fst s < int (length tx) \<and> chunks = snd (snd s)))"
proof -
  have valid: "0 < cs \<and> 0 \<le> ov \<and> ov < cs"
    using assms by (auto simp: sliding_window_chunk_def split: if_splits)
  show ?thesis
  proof (cases "\<exists>tx. v = VStr tx \<and> strip tx \<noteq> []")
    case True
    then obtain tx where v: "v = VStr tx" and ne: "strip tx \<noteq> []" by blast
    from ne have "tx \<noteq> []" by (auto simp: strip_def)
    with assms v ne valid have "chunk_loop tx cs ov (0, 0, []) = Some chunks"
      by (auto simp: sliding_window_chunk_def)
    from chunk_loop_from_reachable [OF this reach_init] v ne valid show ?thesis by blast
  next
    case False
    with assms valid have "chunks = []"
      by (auto simp: sliding_window_chunk_def split: if_splits pyval.splits)
    with valid show ?thesis by simp
  qed
qed

lemma sliding_window_chunk_str:
  assumes "sliding_window_chunk (VStr tx) cs ov = Some (Inr chunks)"
  shows "(strip tx = [] \<and> chunks = []) \<or>
         (strip tx \<noteq> [] \<and>
          (\<exists>s. reachable tx cs ov s \<and> \<not> fst s < int (length tx) \<and> chunks = snd (snd s)))"
proof (cases "strip tx = []")
  case True
  with assms show ?thesis by (auto simp: sliding_window_chunk_def split: if_splits)
next
  case False
  then have "tx \<noteq> []" by (auto simp: strip_def)
  with assms False have "chunk_loop tx cs ov (0, 0, []) = Some chunks"
    by (auto simp: sliding_window_chunk_def split: if_splits)
  from chunk_loop_from_reachable [OF this reach_init] False show ?thesis by blast
qed

lemma reachable_index:
  "reachable tx cs ov s \<Longrightarrow>
   fst (snd s) = int (length (snd (snd s))) \<and>
   map chunk_index (snd (snd s)) = map int [0..<length (snd (snd s))]"
  by (induction rule: reachable.induct) (simp_all add: loop_body_index loop_body_chunks)

lemma reachable_wellformed:
  assumes "reachable tx cs ov s" and "0 < cs" and "0 \<le> ov" and "ov < cs"
  shows "(fst s < 0 \<longrightarrow> cs < int (length tx) \<and> - ov \<le> fst s) \<and>
         (\<forall>c\<in>set (snd (snd s)).
            0 \<le> start_char c \<and> start_char c < end_char c \<and> end_char c \<le> int (length tx) \<and>
            end_char c - start_char c \<le> cs \<and>
            content c = strip (py_slice tx (start_char c) (end_char c)) \<and> content c \<noteq> [])"
  using assms(1)
proof (induction rule: reachable.induct)
  case reach_init
  show ?case by simp
next
  case (reach_step s)
  let ?st = "fst s" and ?e = "window_end tx cs (fst s)" and ?n = "int (length tx)"
  show ?case
  proof (cases "?st < 0")
    case True
    with reach_step.IH have neg: "?st < 0" "- ov \<le> ?st" "ov < cs" "cs < ?n"
      using assms by auto
    have e: "?e = (if ?st < - 1 then 0 else ?st + cs)" by (rule window_end_negative [OF neg])
    have sl: "py_slice tx ?st ?e = []" by (rule slice_negative [OF neg])
    have "strip (py_slice tx ?st ?e) = []" by (simp add: sl strip_def)
    then have ch: "snd (snd (loop_body tx cs ov s)) = snd (snd s)" by (simp add: loop_body_chunks)
    have "?e < ?n" using e neg assms by auto
    then have st: "fst (loop_body tx cs ov s) = ?e - ov" by (simp add: loop_body_start)
    show ?thesis using reach_step.IH ch st e neg by auto
  next
    case False
    then have nn: "0 \<le> ?st" by simp
    from window_end_upper [OF nn reach_step.hyps(2) assms(2)]
    have e: "?st < ?e" "?e \<le> ?st + cs" "?e \<le> ?n" by auto
    have st: "fst (loop_body tx cs ov s) < 0 \<longrightarrow>
              cs < ?n \<and> - ov \<le> fst (loop_body tx cs ov s)"
      using window_end_before_end [of tx cs ?st] nn e by (auto simp: loop_body_start)
    have ch: "\<forall>c\<in>set (snd (snd (loop_body tx cs ov s))).
            0 \<le> start_char c \<and> start_char c < end_char c \<and> end_char c \<le> int (length tx) \<and>
            end_char c - start_char c \<le> cs \<and>
            content c = strip (py_slice tx (start_char c) (end_char c)) \<and> content c \<noteq> []"
      using reach_step.IH nn e by (auto simp: loop_body_chunks)
    show ?thesis using st ch by blast
  qed
qed

lemma covers_append: "covers xs p \<Longrightarrow> covers (xs @ ys) p"
  by (simp add: covers_def)

lemma covers_snoc: "start_char c \<le> p \<Longrightarrow> p < end_char c \<Longrightarrow> covers (xs @ [c]) p"
  by (simp add: covers_def)

lemma reachable_covered:
  assumes "reachable tx cs ov s" and "0 < cs" and "0 \<le> ov" and "ov < cs"
    and nonneg: "\<forall>s. reachable tx cs ov s \<longrightarrow> 0 \<le> fst s"
  shows "\<exists>e. fst s \<le> e \<and>
           (\<forall>p. 0 \<le> p \<longrightarrow> p < e \<longrightarrow> p < int (length tx) \<longrightarrow> \<not> is_space (tx ! nat p) \<longrightarrow>
                covers (snd (snd s)) p)"
  using assms(1)
proof (induction rule: reachable.induct)
  case reach_init
  show ?case by (intro exI [of _ 0]) simp
next
  case (reach_step s)
  let ?st = "fst s" and ?e = "window_end tx cs (fst s)" and ?n = "int (length tx)"
  let ?c = "\<lparr>content = strip (py_slice tx ?st ?e), start_char = ?st, end_char = ?e,
             chunk_index = fst (snd s)\<rparr>"
  from reach_step.IH obtain E where E: "?st \<le> E"
    and cov: "\<And>p. 0 \<le> p \<Longrightarrow> p < E \<Longrightarrow> p < ?n \<Longrightarrow> \<not> is_space (tx ! nat p) \<Longrightarrow>
                  covers (snd (snd s)) p"
    by blast
  have nn: "0 \<le> ?st" using nonneg reach_step.hyps(1) by blast
  from window_end_upper [OF nn reach_step.hyps(2) assms(2)]
  have e: "?st < ?e" "?e \<le> ?n" by auto
  have start: "fst (loop_body tx cs ov s) \<le> max E ?e"
    using e assms(3) by (auto simp: loop_body_start)
  have "covers (snd (snd (loop_body tx cs ov s))) p"
    if p: "0 \<le> p" "p < max E ?e" "p < ?n" "\<not> is_space (tx ! nat p)" for p
  proof (cases "p < E")
    case True
    from cov [OF p(1) True p(3,4)] show ?thesis
      by (auto simp: loop_body_chunks intro: covers_append)
  next
    case False
    with p E have in_window: "?st \<le> p" "p < ?e" by auto
    from py_slice_nth [OF nn in_window e(2)] p(4)
    have "strip (py_slice tx ?st ?e) \<noteq> []" by (auto simp: strip_empty_iff)
    then have "snd (snd (loop_body tx cs ov s)) = snd (snd s) @ [?c]"
      by (simp add: loop_body_chunks)
    moreover have "covers (snd (snd s) @ [?c]) p"
      by (rule covers_snoc) (use in_window in simp_all)
    ultimately show ?thesis by simp
  qed
  with start show ?case by blast
qed

text \<open>
  A cursor from which the window's end minus the overlap is the cursor again is never
  left.
\<close>

lemma chunk_loop_stuck:
  assumes "st < int (length tx)"
    and "window_end tx cs st < int (length tx)"
    and "window_end tx cs st - ov = st"
    and "fst s = st"
  shows "chunk_loop tx cs ov s = None"
proof (rule ccontr)
  assume "chunk_loop tx cs ov s \<noteq> None"
  then obtain y where y: "chunk_loop tx cs ov s = Some y" by blast
  have "fst s \<noteq> st"
  proof (rule chunk_loop.raw_induct
      [where P = "\<lambda>t c o' s y. t = tx \<longrightarrow> c = cs \<longrightarrow> o' = ov \<longrightarrow> fst s \<noteq> st", OF _ y,
        THEN mp, THEN mp, THEN mp], goal_cases)
    case (1 f t c o' s y)
    show ?case
    proof (intro impI notI)
      assume eq: "t = tx" "c = cs" "o' = ov" and st: "fst s = st"
      with 1(2) assms(1) have "f tx cs ov (loop_body tx cs ov s) = Some y" by simp
      from 1(1) [OF this] have "fst (loop_body tx cs ov s) \<noteq> st" by simp
      moreover have "fst (loop_body tx cs ov s) = st"
        using assms(2,3) st by (simp add: loop_body_start)
      ultimately show False by simp
    qed
  qed simp_all
  with assms(4) show False by simp
qed

lemma blank_text_no_windows:
  assumes "0 < cs" and "0 \<le> ov" and "ov < cs" and "\<forall>c\<in>set t. is_space c"
  shows "sliding_window_chunk (VStr t) cs ov = Some (Inr [])"
  using assms by (simp add: sliding_window_chunk_def strip_empty_iff)

lemma falsy_no_windows:
  assumes "0 < cs" and "0 \<le> ov" and "ov < cs" and "\<not> truthy v"
  shows "sliding_window_chunk v cs ov = Some (Inr [])"
  using assms by (simp add: sliding_window_chunk_def)

section \<open>Documents and dictionaries\<close>

lemma process_loop_skip_head:
  assumes "\<not> truthy (dict_get doc ''content'' (VStr [])) \<or>
           (0 < cs \<and> 0 \<le> ov \<and> ov < cs \<and>
            (\<exists>t. dict_get doc ''content'' (VStr []) = VStr t \<and> (\<forall>c\<in>set t. is_space c)))"
  shows "process_loop (doc # docs) cs ov acc = process_loop docs cs ov acc"
proof (cases "truthy (dict_get doc ''content'' (VStr []))")
  case False
  then show ?thesis by simp
next
  case True
  with assms obtain t where t: "0 < cs" "0 \<le> ov" "ov < cs"
    "dict_get doc ''content'' (VStr []) = VStr t" "\<forall>c\<in>set t. is_space c" by blast
  from blank_text_no_windows [OF t(1-3,5)] t(4) True show ?thesis by (simp add: Let_def)
qed

lemma process_loop_skip:
  assumes "\<not> truthy (dict_get doc ''content'' (VStr [])) \<or>
           (0 < cs \<and> 0 \<le> ov \<and> ov < cs \<and>
            (\<exists>t. dict_get doc ''content'' (VStr []) = VStr t \<and> (\<forall>c\<in>set t. is_space c)))"
  shows "process_loop (pre @ doc # post) cs ov acc = process_loop (pre @ post) cs ov acc"
proof (induction pre arbitrary: acc)
  case Nil
  show ?case using process_loop_skip_head [OF assms] by simp
next
  case (Cons d pre)
  show ?case by (simp add: Let_def Cons.IH split: option.splits sum.splits)
qed

lemma process_loop_partition:
  assumes "process_loop docs cs ov acc = Some (Inr all_chunks)"
  shows "\<exists>css. all_chunks = acc @ concat css \<and>
           list_all2
             (\<lambda>doc chunks.
                (if truthy (dict_get doc ''content'' (VStr []))
                 then \<exists>raw_chunks.
                        sliding_window_chunk (dict_get doc ''content'' (VStr [])) cs ov =
                          Some (Inr raw_chunks) \<and>
                        map raw_chunk.truncate chunks = raw_chunks
                 else chunks = []) \<and>
                (\<forall>c\<in>set chunks.
                   filename c = dict_get doc ''filename'' (VStr ''unknown'') \<and>
                   title c = dict_get doc ''title'' VNone \<and>
                   metadata c =
                     (let md = filter (\<lambda>(k, v). k \<notin> {''content'', ''filename'', ''title''}) doc
                      in if md = [] then None else Some md)))
             docs css"
    (is "\<exists>css. _ \<and> list_all2 ?P docs css")
  using assms
proof (induction docs arbitrary: acc)
  case Nil
  then show ?case by (intro exI [of _ "[]"]) simp
next
  case (Cons doc docs)
  show ?case
  proof (cases "truthy (dict_get doc ''content'' (VStr []))")
    case False
    with Cons.prems have "process_loop docs cs ov acc = Some (Inr all_chunks)" by simp
    from Cons.IH [OF this] obtain css
      where "all_chunks = acc @ concat css" and "list_all2 ?P docs css"
      by blast
    with False show ?thesis by (intro exI [of _ "[] # css"]) simp
  next
    case True
    let ?mk = "\<lambda>raw_chunk.
          \<lparr>content = content raw_chunk, start_char = start_char raw_chunk,
           end_char = end_char raw_chunk, chunk_index = chunk_index raw_chunk,
           filename = dict_get doc ''filename'' (VStr ''unknown''),
           title = dict_get doc ''title'' VNone,
           metadata = metadata_or_none
             (filter (\<lambda>(k, v). k \<notin> set [''content'', ''filename'', ''title'']) doc)\<rparr>"
    from Cons.prems True obtain raw_chunks where
      raw: "sliding_window_chunk (dict_get doc ''content'' (VStr [])) cs ov = Some (Inr raw_chunks)"
      and rest: "process_loop docs cs ov (acc @ map ?mk raw_chunks) = Some (Inr all_chunks)"
      by (auto simp: Let_def split: option.splits sum.splits)
    from Cons.IH [OF rest] obtain css
      where "all_chunks = (acc @ map ?mk raw_chunks) @ concat css" and "list_all2 ?P docs css"
      by blast
    moreover have "map raw_chunk.truncate (map ?mk raw_chunks) = raw_chunks"
    proof -
      have "raw_chunk.truncate (?mk r) = r" for r
        by (cases r) (simp add: raw_chunk.truncate_def)
      then show ?thesis by (induction raw_chunks) simp_all
    qed
    ultimately show ?thesis using True raw
      by (intro exI [of _ "map ?mk raw_chunks # css"]) (auto simp: metadata_or_none_def Let_def)
  qed
qed

lemma dict_update_keys: "fst ` set (dict_update d other) = fst ` set d \<union> fst ` set other"
  unfolding dict_update_def
proof (induction other arbitrary: d)
  case Nil
  show ?case by simp
next
  case (Cons kv other)
  obtain k v where kv: "kv = (k, v)" by (cases kv)
  have "fst ` set (fold (\<lambda>(k, v). AList.update k v) other (AList.update k v d)) =
        ({k} \<union> fst ` set d) \<union> fst ` set other"
    by (simp only: Cons.IH AList.dom_update)
  then show ?case by (simp add: kv)
qed

lemma dict_update_distinct:
  "distinct (map fst d) \<Longrightarrow> distinct (map fst (dict_update d other))"
  unfolding dict_update_def
  by (induction other arbitrary: d) (auto simp: AList.distinct_update)

lemma dict_update_lookup:
  "distinct (map fst other) \<Longrightarrow>
   map_of (dict_update d other) k =
     (case map_of other k of Some v \<Rightarrow> Some v | None \<Rightarrow> map_of d k)"
  unfolding dict_update_def
proof (induction other arbitrary: d)
  case Nil
  show ?case by simp
next
  case (Cons kv other)
  obtain k' v' where kv: "kv = (k', v')" by (cases kv)
  from Cons.prems kv have d: "distinct (map fst other)" and n: "map_of other k' = None"
    by (auto simp: map_of_eq_None_iff)
  show ?case using Cons.IH [OF d, of "AList.update k' v' d"] n
    by (auto simp: kv AList.update_conv' split: option.splits)
qed

lemma set_seven: "set [a, b, c, d, e, f, g] = insert g {a, b, c, d, e, f}"
  by auto

lemma remove_inserted: "m \<notin> S \<Longrightarrow> m \<notin> K \<Longrightarrow> (insert m S \<union> K) - {m} = S \<union> K"
  by blast

lemma asdict_keys:
  "map fst (asdict c) =
     [''content'', ''start_char'', ''end_char'', ''chunk_index'', ''filename'', ''title'',
      ''metadata'']"
  by (simp add: asdict_def)

subsection \<open>Coverage while the cursor is not negative\<close>

text \<open>
  As long as the cursor is not negative at the head of the loop, the next window starts no
  later than the last one ended, and a window is dropped only when it is blank. So in a run
  that returns without the cursor ever being negative, every character that is not white
  space lies in the range of a returned window.
\<close>

lemma nonblank_text_covered:
  assumes "0 < cs" and "0 \<le> ov" and "ov < cs"
    and "\<forall>s. reachable tx cs ov s \<longrightarrow> 0 \<le> fst s"
    and "sliding_window_chunk (VStr tx) cs ov = Some (Inr chunks)"
  shows "(\<forall>p<length tx. \<not> is_space (tx ! p) \<longrightarrow> covers chunks (int p)) \<and>
         ((\<exists>c\<in>set tx. \<not> is_space c) \<longrightarrow> chunks \<noteq> [])"
proof -
  have cov: "covers chunks (int p)" if p: "p < length tx" "\<not> is_space (tx ! p)" for p
  proof -
    from p have "\<not> (\<forall>c\<in>set tx. is_space c)" using nth_mem by blast
    then have "strip tx \<noteq> []" by (simp add: strip_empty_iff)
    with sliding_window_chunk_str [OF assms(5)]
    obtain s where s: "reachable tx cs ov s" "\<not> fst s < int (length tx)" "chunks = snd (snd s)"
      by blast
    from reachable_covered [OF s(1) assms(1-4)]
    obtain e where e: "fst s \<le> e"
      and c: "\<And>q. 0 \<le> q \<Longrightarrow> q < e \<Longrightarrow> q < int (length tx) \<Longrightarrow> \<not> is_space (tx ! nat q) \<Longrightarrow>
                  covers (snd (snd s)) q"
      by blast
    have "covers (snd (snd s)) (int p)"
      by (rule c) (use p e s(2) in simp_all)
    with s(3) show ?thesis by simp
  qed
  have "chunks \<noteq> []" if "\<exists>c\<in>set tx. \<not> is_space c"
  proof -
    from that obtain p where "p < length tx" "\<not> is_space (tx ! p)"
      by (auto simp: in_set_conv_nth)
    from cov [OF this] show ?thesis by (auto simp: covers_def)
  qed
  with cov show ?thesis by blast
qed

text \<open>
  An instance: chunk size 10, overlap 3, a text of 15 characters. The loop's states are
  the three listed in the proof, none with a negative cursor.
\<close>

lemma nonblank_text_covered_instance:
  "sliding_window_chunk (VStr ''hello world foo'') 10 3 =
     Some (Inr [\<lparr>content = ''hello worl'', start_char = 0, end_char = 10, chunk_index = 0\<rparr>,
                \<lparr>content = ''orld foo'', start_char = 7, end_char = 15, chunk_index = 1\<rparr>]) \<and>
   covers [\<lparr>content = ''hello worl'', start_char = 0, end_char = 10, chunk_index = 0\<rparr>,
           \<lparr>content = ''orld foo'', start_char = 7, end_char = 15, chunk_index = 1\<rparr>] 12 \<and>
   [\<lparr>content = ''hello worl'', start_char = 0, end_char = 10, chunk_index = 0\<rparr>,
    \<lparr>content = ''orld foo'', start_char = 7, end_char = 15, chunk_index = 1\<rparr>] \<noteq> []"
proof -
  let ?T = "''hello world foo''"
  let ?c1 = "\<lparr>content = ''hello worl'', start_char = 0, end_char = 10, chunk_index = 0\<rparr>"
  let ?c2 = "\<lparr>content = ''orld foo'', start_char = 7, end_char = 15, chunk_index = 1\<rparr>"
  have r: "sliding_window_chunk (VStr ?T) 10 3 = Some (Inr [?c1, ?c2])" by code_simp
  have v: "(0 :: int) < 10" "(0 :: int) \<le> 3" "(3 :: int) < 10" by simp_all
  have b0: "loop_body ?T 10 3 (0, 0, []) = (7, 1, [?c1])" by code_simp
  have b1: "loop_body ?T 10 3 (7, 1, [?c1]) = (15, 2, [?c1, ?c2])" by code_simp
  have states: "s = (0, 0, []) \<or> s = (7, 1, [?c1]) \<or> s = (15, 2, [?c1, ?c2])"
    if "reachable ?T 10 3 s" for s
    using that
  proof (induction rule: reachable.induct)
    case reach_init
    show ?case by simp
  next
    case (reach_step s)
    then show ?case using b0 b1 by auto
  qed
  have nonneg: "\<forall>s. reachable ?T 10 3 s \<longrightarrow> 0 \<le> fst s"
    using states by fastforce
  have p: "12 < length ?T" "\<not> is_space (?T ! 12)" by (simp_all add: is_space_def)
  have "covers [?c1, ?c2] (int 12)"
    using nonblank_text_covered [OF v nonneg r] p by blast
  then show ?thesis using r by simp
qed

section \<open>The claims\<close>

subsection \<open>C1: forward progress\<close>

text \<open>
  Claim C1 says that the cursor grows in every iteration, so that the call returns. The code
  has no such guarantee, and the specification's own scenario (chunk size 20, overlap 5)
  shows it: the first window ends at the paragraph break at offset 14, the next one starts
  at 9, finds the same break and ends at 14 again, and so does every later one. The call
  never returns.
\<close>

theorem spec_scenario_never_returns:
  "sliding_window_chunk
     (VStr ''Paragraph one.\<newline>\<newline>Paragraph two is longer and continues for a while.'') 20 5 = None"
proof -
  let ?T = "''Paragraph one.\<newline>\<newline>Paragraph two is longer and continues for a while.''"
  have n: "int (length ?T) = 66" by simp
  have w0: "window_end ?T 20 0 = 14" by code_simp
  have w9: "window_end ?T 20 9 = 14" by code_simp
  have s: "strip ?T \<noteq> []" by code_simp
  have f: "fst (loop_body ?T 20 5 (0, 0, [])) = 9"
    by (simp only: loop_body_start fst_conv w0 n) simp
  have "chunk_loop ?T 20 5 (loop_body ?T 20 5 (0, 0, [])) = None"
  proof (rule chunk_loop_stuck [where st = 9])
    show "9 < int (length ?T)" by simp
    show "window_end ?T 20 9 < int (length ?T)" unfolding w9 by simp
    show "window_end ?T 20 9 - 5 = 9" unfolding w9 by simp
    show "fst (loop_body ?T 20 5 (0, 0, [])) = 9" by (rule f)
  qed
  moreover have "chunk_loop ?T 20 5 (0, 0, []) = chunk_loop ?T 20 5 (loop_body ?T 20 5 (0, 0, []))"
    by (subst chunk_loop.simps) (simp only: fst_conv n, simp)
  ultimately have "chunk_loop ?T 20 5 (0, 0, []) = None" by simp
  then show ?thesis using s by (simp add: sliding_window_chunk_def)
qed

subsection \<open>C2: coverage\<close>

text \<open>
  Claim C2 says that the ranges of the returned windows cover the whole text. White space
  aside (a blank text gives no window and a blank window is dropped, both by explicit
  tests), the code loses text: when a window ends \<open>overlap - 1\<close> characters into the text,
  the cursor becomes \<open>-1\<close>; Python reads it from the end of the text, the next slice is empty
  and nothing is recorded, and the cursor moves on to \<open>chunk_size - 1 - overlap\<close>. With
  chunk size 10 and overlap 2 on the 17 characters below, the call returns the windows
  \<open>[0, 1)\<close> and \<open>[7, 17)\<close>: the letter at offset 3 is in neither.
\<close>

theorem letters_lost_after_negative_cursor:
  "sliding_window_chunk (VStr ''a\<newline>bcdefghijklmnop'') 10 2 =
     Some (Inr [\<lparr>content = ''a'', start_char = 0, end_char = 1, chunk_index = 0\<rparr>,
                \<lparr>content = ''ghijklmnop'', start_char = 7, end_char = 17, chunk_index = 1\<rparr>]) \<and>
   ''a\<newline>bcdefghijklmnop'' ! 3 = CHR ''c'' \<and>
   \<not> is_space (CHR ''c'') \<and>
   \<not> covers [\<lparr>content = ''a'', start_char = 0, end_char = 1, chunk_index = 0\<rparr>,
              \<lparr>content = ''ghijklmnop'', start_char = 7, end_char = 17, chunk_index = 1\<rparr>] 3"
  by code_simp

subsection \<open>C3: parameter validation\<close>

text \<open>
  Claim C3. \<^verbatim>\<open>sliding_window_chunk\<close> raises the \<^verbatim>\<open>ValueError\<close> of its parameter check
  exactly when \<open>chunk_size \<le> 0\<close>, \<open>overlap < 0\<close> or \<open>overlap \<ge> chunk_size\<close>. The check
  comes before the text is looked at: with such parameters the outcome is the same for
  every text (the empty one included), and it is an error, so no window is returned.
\<close>

theorem invalid_parameters_rejected:
  "((\<exists>msg. sliding_window_chunk v cs ov = Some (Inl (ValueError msg))) \<longleftrightarrow>
      (cs \<le> 0 \<or> ov < 0 \<or> ov \<ge> cs)) \<and>
   (cs \<le> 0 \<or> ov < 0 \<or> ov \<ge> cs \<longrightarrow>
      sliding_window_chunk v cs ov = sliding_window_chunk v' cs ov)"
  by (auto simp: sliding_window_chunk_def split: pyval.splits)

theorem invalid_parameters_rejected_witness:
  "(\<exists>msg. sliding_window_chunk (VStr ''x'') 100 (- 1) = Some (Inl (ValueError msg))) \<and>
   (\<exists>msg. sliding_window_chunk (VStr ''x'') 0 0 = Some (Inl (ValueError msg))) \<and>
   sliding_window_chunk (VStr ''x'') 0 0 = sliding_window_chunk (VStr []) 0 0 \<and>
   \<not> (\<exists>msg. sliding_window_chunk (VStr ''x'') 100 10 = Some (Inl (ValueError msg)))"
proof -
  have a: "(100 :: int) \<le> 0 \<or> (- 1 :: int) < 0 \<or> (- 1 :: int) \<ge> 100" by simp
  have b: "(0 :: int) \<le> 0 \<or> (0 :: int) < 0 \<or> (0 :: int) \<ge> 0" by simp
  have c: "\<not> ((100 :: int) \<le> 0 \<or> (10 :: int) < 0 \<or> (10 :: int) \<ge> 100)" by simp
  show ?thesis
    using a b c
      invalid_parameters_rejected [of "VStr ''x''" 100 "- 1" "VStr []"]
      invalid_parameters_rejected [of "VStr ''x''" 0 0 "VStr []"]
      invalid_parameters_rejected [of "VStr ''x''" 100 10 "VStr []"]
    by blast
qed

subsection \<open>C4: documents without text\<close>

text \<open>
  Claim C4. A document whose \<^verbatim>\<open>content\<close> is missing or empty (or any other false value) is
  skipped whatever the parameters are, and a document whose content is white space only is
  skipped under valid parameters (the parameter check of claim C3 comes before any text).
  Skipped means that the call on the list with the document is the call on the list
  without it: no chunk, no error. Under valid parameters the splitter returns the empty
  list on such a content.
\<close>

theorem blank_document_skipped:
  assumes "\<not> truthy (dict_get doc ''content'' (VStr [])) \<or>
           (0 < cs \<and> 0 \<le> ov \<and> ov < cs \<and>
            (\<exists>t. dict_get doc ''content'' (VStr []) = VStr t \<and> (\<forall>c\<in>set t. is_space c)))"
  shows "process_documents (pre @ doc # post) cs ov = process_documents (pre @ post) cs ov \<and>
         (0 < cs \<and> 0 \<le> ov \<and> ov < cs \<longrightarrow>
            sliding_window_chunk (dict_get doc ''content'' (VStr [])) cs ov = Some (Inr []))"
proof
  show "process_documents (pre @ doc # post) cs ov = process_documents (pre @ post) cs ov"
    unfolding process_documents_def by (rule process_loop_skip [OF assms])
  show "0 < cs \<and> 0 \<le> ov \<and> ov < cs \<longrightarrow>
          sliding_window_chunk (dict_get doc ''content'' (VStr [])) cs ov = Some (Inr [])"
    using assms blank_text_no_windows falsy_no_windows by metis
qed

theorem blank_document_skipped_witness:
  "process_documents
     ([[(''content'', VStr ''ab cd''), (''filename'', VStr ''a.md'')]] @
      [(''content'', VStr [CHR '' '', CHR 0x0A, CHR 0x09]), (''filename'', VStr ''b.md'')] # []) 3 0 =
   process_documents
     ([[(''content'', VStr ''ab cd''), (''filename'', VStr ''a.md'')]] @ []) 3 0 \<and>
   sliding_window_chunk (VStr [CHR '' '', CHR 0x0A, CHR 0x09]) 3 0 = Some (Inr []) \<and>
   process_documents ([] @ [(''filename'', VStr ''c.md'')] # []) 0 0 = process_documents ([] @ []) 0 0"
proof -
  let ?b = "[(''content'', VStr [CHR '' '', CHR 0x0A, CHR 0x09]), (''filename'', VStr ''b.md'')]"
  let ?c = "[(''filename'', VStr ''c.md'')]"
  have hb: "\<not> truthy (dict_get ?b ''content'' (VStr [])) \<or>
           ((0 :: int) < 3 \<and> (0 :: int) \<le> 0 \<and> (0 :: int) < 3 \<and>
            (\<exists>t. dict_get ?b ''content'' (VStr []) = VStr t \<and> (\<forall>c\<in>set t. is_space c)))"
    by (simp add: dict_get_def is_space_def)
  have hc: "\<not> truthy (dict_get ?c ''content'' (VStr [])) \<or>
           ((0 :: int) < 0 \<and> (0 :: int) \<le> 0 \<and> (0 :: int) < 0 \<and>
            (\<exists>t. dict_get ?c ''content'' (VStr []) = VStr t \<and> (\<forall>c\<in>set t. is_space c)))"
    by (simp add: dict_get_def)
  have g: "dict_get ?b ''content'' (VStr []) = VStr [CHR '' '', CHR 0x0A, CHR 0x09]"
    by (simp add: dict_get_def)
  from blank_document_skipped [OF hb, of "[[(''content'', VStr ''ab cd''), (''filename'', VStr ''a.md'')]]" "[]"]
    blank_document_skipped [OF hc, of "[]" "[]"] g
  show ?thesis by simp
qed

subsection \<open>C5: chunk indices\<close>

text \<open>
  Claim C5. The \<^verbatim>\<open>chunk_index\<close> values of the windows a call returns are \<open>0, 1, ..., n-1\<close>
  in this order; and an iteration whose window trims to the empty string leaves both the
  list of windows and the next index as they were.
\<close>

theorem chunk_index_consecutive:
  "(sliding_window_chunk v cs ov = Some (Inr chunks) \<longrightarrow>
      map chunk_index chunks = map int [0..<length chunks]) \<and>
   (strip (py_slice tx (fst s) (window_end tx cs' (fst s))) = [] \<longrightarrow>
      snd (loop_body tx cs' ov' s) = snd s)"
proof (intro conjI impI)
  assume "sliding_window_chunk v cs ov = Some (Inr chunks)"
  from sliding_window_chunk_returns [OF this] reachable_index
  show "map chunk_index chunks = map int [0..<length chunks]" by fastforce
next
  assume "strip (py_slice tx (fst s) (window_end tx cs' (fst s))) = []"
  then show "snd (loop_body tx cs' ov' s) = snd s"
    by (simp add: prod_eq_iff loop_body_index loop_body_chunks)
qed

theorem chunk_index_consecutive_witness:
  "map chunk_index
     [\<lparr>content = ''a'', start_char = 0, end_char = 1, chunk_index = 0\<rparr>,
      \<lparr>content = ''ghijklmnop'', start_char = 7, end_char = 17, chunk_index = 1\<rparr>] =
   [0, 1] \<and>
   snd (loop_body ''ab      cd'' 3 0 (3, 1, [])) = snd (3 :: int, 1 :: int, [])"
proof -
  have r: "sliding_window_chunk (VStr (''a'' @ [CHR 0x0A] @ ''bcdefghijklmnop'')) 10 2 =
     Some (Inr [\<lparr>content = ''a'', start_char = 0, end_char = 1, chunk_index = 0\<rparr>,
                \<lparr>content = ''ghijklmnop'', start_char = 7, end_char = 17, chunk_index = 1\<rparr>])"
    by code_simp
  have b: "strip (py_slice ''ab      cd'' (fst (3 :: int, 1 :: int, [] :: raw_chunk list))
             (window_end ''ab      cd'' 3 (fst (3 :: int, 1 :: int, [] :: raw_chunk list)))) = []"
    by code_simp
  from chunk_index_consecutive
    [of "VStr (''a'' @ [CHR 0x0A] @ ''bcdefghijklmnop'')" 10 2 _ "''ab      cd''"
        "(3, 1, [])" 3 0] r b
  show ?thesis by simp
qed

subsection \<open>C6: sentence terminators\<close>



subsection \<open>C7: window size\<close>

text \<open>
  Claim C7. Under valid parameters every returned window has
  \<open>end_char - start_char \<le> chunk_size\<close>; its content is the trimmed slice between the two
  offsets, so it is never longer than the raw window.
\<close>

theorem window_size_bounded:
  assumes "0 < cs" and "0 \<le> ov" and "ov < cs"
    and "sliding_window_chunk (VStr tx) cs ov = Some (Inr chunks)"
    and "c \<in> set chunks"
  shows "end_char c - start_char c \<le> cs \<and>
         content c = strip (py_slice tx (start_char c) (end_char c)) \<and>
         int (length (content c)) \<le> end_char c - start_char c"
proof -
  from sliding_window_chunk_returns [OF assms(4)] assms(5)
  obtain s where s: "reachable tx cs ov s" "chunks = snd (snd s)" by auto
  from reachable_wellformed [OF s(1) assms(1-3)] s(2) assms(5)
  have c: "0 \<le> start_char c" "start_char c < end_char c" "end_char c \<le> int (length tx)"
    "end_char c - start_char c \<le> cs"
    "content c = strip (py_slice tx (start_char c) (end_char c))" by auto
  have "int (length (content c)) \<le> int (length (py_slice tx (start_char c) (end_char c)))"
    using length_strip [of "py_slice tx (start_char c) (end_char c)"] c(5) by simp
  also have "\<dots> = end_char c - start_char c"
    using c by (simp add: py_slice_length)
  finally show ?thesis using c by simp
qed

theorem window_size_bounded_witness:
  "sliding_window_chunk (VStr ''hello world foo'') 10 3 =
     Some (Inr [\<lparr>content = ''hello worl'', start_char = 0, end_char = 10, chunk_index = 0\<rparr>,
                \<lparr>content = ''orld foo'', start_char = 7, end_char = 15, chunk_index = 1\<rparr>]) \<and>
   (15 :: int) - 7 \<le> 10 \<and>
   ''orld foo'' = strip (py_slice ''hello world foo'' 7 15) \<and>
   int (length ''orld foo'') \<le> 15 - 7"
proof -
  have r: "sliding_window_chunk (VStr ''hello world foo'') 10 3 =
     Some (Inr [\<lparr>content = ''hello worl'', start_char = 0, end_char = 10, chunk_index = 0\<rparr>,
                \<lparr>content = ''orld foo'', start_char = 7, end_char = 15, chunk_index = 1\<rparr>])"
    by code_simp
  have v: "(0 :: int) < 10" "(0 :: int) \<le> 3" "(3 :: int) < 10" by simp_all
  have m: "\<lparr>content = ''orld foo'', start_char = 7, end_char = 15, chunk_index = 1\<rparr>
    \<in> set [\<lparr>content = ''hello worl'', start_char = 0, end_char = 10, chunk_index = 0\<rparr>,
            \<lparr>content = ''orld foo'', start_char = 7, end_char = 15, chunk_index = 1\<rparr>]"
    by simp
  from window_size_bounded [OF v r m] r show ?thesis by simp
qed

subsection \<open>C8: document fields on every chunk\<close>

text \<open>
  Claim C8. When \<^verbatim>\<open>process_documents\<close> returns, its list is the concatenation of one list
  of chunks per document, in the order of the documents. The chunks of a document are the
  splitter's windows of its content (none when the content is missing or empty), and each
  of them carries the document's \<^verbatim>\<open>filename\<close> (\<^verbatim>\<open>'unknown'\<close> when there is none), its
  \<^verbatim>\<open>title\<close> (\<^verbatim>\<open>None\<close> when there is none) and, as \<^verbatim>\<open>metadata\<close>, the document's entries other
  than \<^verbatim>\<open>content\<close>, \<^verbatim>\<open>filename\<close> and \<^verbatim>\<open>title\<close>, in their order and with their values, or
  \<^verbatim>\<open>None\<close> when no entry is left.
\<close>

theorem chunks_carry_document_fields:
  assumes "process_documents docs cs ov = Some (Inr all_chunks)"
  shows "\<exists>css. all_chunks = concat css \<and>
           list_all2
             (\<lambda>doc chunks.
                (if truthy (dict_get doc ''content'' (VStr []))
                 then \<exists>raw_chunks.
                        sliding_window_chunk (dict_get doc ''content'' (VStr [])) cs ov =
                          Some (Inr raw_chunks) \<and>
                        map raw_chunk.truncate chunks = raw_chunks
                 else chunks = []) \<and>
                (\<forall>c\<in>set chunks.
                   filename c = dict_get doc ''filename'' (VStr ''unknown'') \<and>
                   title c = dict_get doc ''title'' VNone \<and>
                   metadata c =
                     (let md = filter (\<lambda>(k, v). k \<notin> {''content'', ''filename'', ''title''}) doc
                      in if md = [] then None else Some md)))
             docs css"
  using process_loop_partition [of docs cs ov "[]" all_chunks] assms
  by (simp add: process_documents_def)

theorem chunks_carry_document_fields_witness:
  "process_documents
     [[(''content'', VStr ''hello world, this is long enough text to split maybe''),
       (''filename'', VStr ''a.md''), (''title'', VStr ''T''), (''tags'', VList [VStr ''x''])],
      [(''content'', VStr ''no name'')]] 20 0 =
   Some (Inr
     [\<lparr>content = ''hello world, this is'', start_char = 0, end_char = 20, chunk_index = 0,
       filename = VStr ''a.md'', title = VStr ''T'',
       metadata = Some [(''tags'', VList [VStr ''x''])]\<rparr>,
      \<lparr>content = ''long enough text to'', start_char = 20, end_char = 40, chunk_index = 1,
       filename = VStr ''a.md'', title = VStr ''T'',
       metadata = Some [(''tags'', VList [VStr ''x''])]\<rparr>,
      \<lparr>content = ''split maybe'', start_char = 40, end_char = 52, chunk_index = 2,
       filename = VStr ''a.md'', title = VStr ''T'',
       metadata = Some [(''tags'', VList [VStr ''x''])]\<rparr>,
      \<lparr>content = ''no name'', start_char = 0, end_char = 7, chunk_index = 0,
       filename = VStr ''unknown'', title = VNone, metadata = None\<rparr>]) \<and>
   (\<exists>css. length css = 2 \<and>
      [\<lparr>content = ''hello world, this is'', start_char = 0, end_char = 20, chunk_index = 0,
        filename = VStr ''a.md'', title = VStr ''T'',
        metadata = Some [(''tags'', VList [VStr ''x''])]\<rparr>,
       \<lparr>content = ''long enough text to'', start_char = 20, end_char = 40, chunk_index = 1,
        filename = VStr ''a.md'', title = VStr ''T'',
        metadata = Some [(''tags'', VList [VStr ''x''])]\<rparr>,
       \<lparr>content = ''split maybe'', start_char = 40, end_char = 52, chunk_index = 2,
        filename = VStr ''a.md'', title = VStr ''T'',
        metadata = Some [(''tags'', VList [VStr ''x''])]\<rparr>,
       \<lparr>content = ''no name'', start_char = 0, end_char = 7, chunk_index = 0,
        filename = VStr ''unknown'', title = VNone, metadata = None\<rparr>] = concat css)"
  (is "?run \<and> ?split")
proof
  show r: ?run by code_simp
  from chunks_carry_document_fields [OF r] obtain css
    where c: "[\<lparr>content = ''hello world, this is'', start_char = 0, end_char = 20, chunk_index = 0,
        filename = VStr ''a.md'', title = VStr ''T'',
        metadata = Some [(''tags'', VList [VStr ''x''])]\<rparr>,
       \<lparr>content = ''long enough text to'', start_char = 20, end_char = 40, chunk_index = 1,
        filename = VStr ''a.md'', title = VStr ''T'',
        metadata = Some [(''tags'', VList [VStr ''x''])]\<rparr>,
       \<lparr>content = ''split maybe'', start_char = 40, end_char = 52, chunk_index = 2,
        filename = VStr ''a.md'', title = VStr ''T'',
        metadata = Some [(''tags'', VList [VStr ''x''])]\<rparr>,
       \<lparr>content = ''no name'', start_char = 0, end_char = 7, chunk_index = 0,
        filename = VStr ''unknown'', title = VNone, metadata = None\<rparr>] = concat css"
      and l: "length
        [[(''content'', VStr ''hello world, this is long enough text to split maybe''),
          (''filename'', VStr ''a.md''), (''title'', VStr ''T''), (''tags'', VList [VStr ''x''])],
         [(''content'', VStr ''no name'')]] = length css"
    by (blast dest: list_all2_lengthD)
  from l have "length css = 2" by simp
  with c show ?split by blast
qed

subsection \<open>C9: serialization\<close>

text \<open>
  Claim C9, as amended. For a chunk whose metadata is a non-empty dictionary (with distinct
  keys, none of them \<^verbatim>\<open>metadata\<close>), the keys of \<^verbatim>\<open>to_dict\<close> are the six fixed ones and the
  keys of the metadata, each key once; a metadata key has the metadata's value, also when
  it is the name of a fixed field, and every other fixed field has the chunk's value. For a
  chunk whose metadata is \<^verbatim>\<open>None\<close> (or empty) \<^verbatim>\<open>to_dict\<close> is \<^verbatim>\<open>asdict\<close>: the six fixed keys
  and a seventh key \<^verbatim>\<open>metadata\<close>, whose value is \<^verbatim>\<open>None\<close> when the metadata is.
\<close>

theorem to_dict_keys:
  "(metadata c = None \<or> metadata c = Some [] \<longrightarrow>
      to_dict c = asdict c \<and>
      map fst (to_dict c) =
        [''content'', ''start_char'', ''end_char'', ''chunk_index'', ''filename'', ''title'',
         ''metadata''] \<and>
      (metadata c = None \<longrightarrow> map_of (to_dict c) ''metadata'' = Some VNone)) \<and>
   (metadata c = Some md \<longrightarrow> md \<noteq> [] \<longrightarrow> distinct (map fst md) \<longrightarrow>
    ''metadata'' \<notin> fst ` set md \<longrightarrow>
      fst ` set (to_dict c) =
        {''content'', ''start_char'', ''end_char'', ''chunk_index'', ''filename'', ''title''} \<union>
        fst ` set md \<and>
      distinct (map fst (to_dict c)) \<and>
      (\<forall>k v. map_of md k = Some v \<longrightarrow> map_of (to_dict c) k = Some v) \<and>
      (\<forall>k. k \<notin> fst ` set md \<longrightarrow> k \<noteq> ''metadata'' \<longrightarrow>
           map_of (to_dict c) k = map_of (asdict c) k))"
proof (intro conjI impI allI)
  assume "metadata c = None \<or> metadata c = Some []"
  then show e: "to_dict c = asdict c" by (auto simp: to_dict_def)
  show "map fst (to_dict c) =
        [''content'', ''start_char'', ''end_char'', ''chunk_index'', ''filename'', ''title'',
         ''metadata'']"
    by (simp only: e asdict_keys)
  assume "metadata c = None"
  then show "map_of (to_dict c) ''metadata'' = Some VNone"
    by (simp add: e) (simp add: asdict_def)
next
  assume md: "metadata c = Some md" "md \<noteq> []" "distinct (map fst md)"
    "''metadata'' \<notin> fst ` set md"
  have t: "to_dict c = AList.delete ''metadata'' (dict_update (asdict c) md)"
    using md by (simp add: to_dict_def)
  let ?six = "{''content'', ''start_char'', ''end_char'', ''chunk_index'', ''filename'',
               ''title''}"
  have "fst ` set (asdict c) = set (map fst (asdict c))" by (simp only: set_map)
  also have "\<dots> = set [''content'', ''start_char'', ''end_char'', ''chunk_index'', ''filename'',
                      ''title'', ''metadata'']"
    by (simp only: asdict_keys)
  also have "\<dots> = insert ''metadata'' ?six"
    by (rule set_seven)
  finally have ka: "fst ` set (asdict c) = insert ''metadata'' ?six" .
  have six: "''metadata'' \<notin> ?six" by simp
  have "fst ` set (to_dict c) = fst ` set (dict_update (asdict c) md) - {''metadata''}"
    by (simp only: t AList.delete_keys flip: set_map) simp
  then have "fst ` set (to_dict c) = (insert ''metadata'' ?six \<union> fst ` set md) - {''metadata''}"
    by (simp only: dict_update_keys ka)
  also have "\<dots> = ?six \<union> fst ` set md" by (rule remove_inserted [OF six md(4)])
  finally show "fst ` set (to_dict c) = ?six \<union> fst ` set md" .
  have "distinct (map fst (asdict c))" by (simp add: asdict_keys)
  then show "distinct (map fst (to_dict c))"
    by (simp add: t AList.distinct_delete dict_update_distinct)
  show "map_of (to_dict c) k = Some v" if "map_of md k = Some v" for k v
  proof -
    from that have "k \<in> fst ` set md" by (metis map_of_eq_None_iff option.distinct(1))
    with md(4) have "k \<noteq> ''metadata''" by blast
    then show ?thesis using that by (simp add: t dict_update_lookup [OF md(3)])
  qed
  show "map_of (to_dict c) k = map_of (asdict c) k"
    if "k \<notin> fst ` set md" "k \<noteq> ''metadata''" for k
  proof -
    from that(1) have "map_of md k = None" by (simp add: map_of_eq_None_iff)
    then show ?thesis using that(2) by (simp add: t dict_update_lookup [OF md(3)])
  qed
qed

theorem to_dict_keys_witness:
  "to_dict \<lparr>content = ''a'', start_char = 0, end_char = 1, chunk_index = 0,
            filename = VStr ''a.md'', title = VNone, metadata = None\<rparr> =
   asdict \<lparr>content = ''a'', start_char = 0, end_char = 1, chunk_index = 0,
           filename = VStr ''a.md'', title = VNone, metadata = None\<rparr> \<and>
   map_of (to_dict \<lparr>content = ''a'', start_char = 0, end_char = 1, chunk_index = 0,
                    filename = VStr ''a.md'', title = VNone,
                    metadata = Some [(''tags'', VInt 1), (''title'', VStr ''T'')]\<rparr>) ''title'' =
     Some (VStr ''T'') \<and>
   fst ` set (to_dict \<lparr>content = ''a'', start_char = 0, end_char = 1, chunk_index = 0,
                    filename = VStr ''a.md'', title = VNone,
                    metadata = Some [(''tags'', VInt 1), (''title'', VStr ''T'')]\<rparr>) =
     {''content'', ''start_char'', ''end_char'', ''chunk_index'', ''filename'', ''title''} \<union>
     fst ` set [(''tags'', VInt 1), (''title'', VStr ''T'')]"
proof -
  let ?c0 = "\<lparr>content = ''a'', start_char = 0, end_char = 1, chunk_index = 0,
            filename = VStr ''a.md'', title = VNone, metadata = None\<rparr>"
  let ?md = "[(''tags'', VInt 1), (''title'', VStr ''T'')]"
  let ?c1 = "\<lparr>content = ''a'', start_char = 0, end_char = 1, chunk_index = 0,
            filename = VStr ''a.md'', title = VNone, metadata = Some ?md\<rparr>"
  have n: "metadata ?c0 = None \<or> metadata ?c0 = Some []" by simp
  note a = to_dict_keys [of ?c0 "[]", THEN conjunct1, THEN mp, OF n, THEN conjunct1]
  have h: "metadata ?c1 = Some ?md" "?md \<noteq> []" "distinct (map fst ?md)"
    "''metadata'' \<notin> fst ` set ?md" by simp_all
  have m: "map_of ?md ''title'' = Some (VStr ''T'')" by simp
  note x = to_dict_keys [of ?c1 ?md, THEN conjunct2, THEN mp, THEN mp, THEN mp, THEN mp, OF h]
  note k = x [THEN conjunct1]
  note l = x [THEN conjunct2, THEN conjunct2, THEN conjunct1, THEN spec, THEN spec, THEN mp, OF m]
  show ?thesis by (intro conjI a k l)
qed

text \<open>
  Without the amendment the statement fails: for a chunk without metadata the result has
  seven keys, the last of them \<^verbatim>\<open>metadata\<close>.
\<close>

theorem metadata_key_kept_counterexample:
  "map fst (to_dict \<lparr>content = ''a'', start_char = 0, end_char = 1, chunk_index = 0,
                     filename = VStr ''a.md'', title = VNone, metadata = None\<rparr>) =
     [''content'', ''start_char'', ''end_char'', ''chunk_index'', ''filename'', ''title'',
      ''metadata'']"
  by (simp add: to_dict_def asdict_def)

subsection \<open>C10: offsets\<close>

text \<open>
  Claim C10. Under valid parameters every returned window has
  \<open>0 \<le> start_char < end_char \<le> len(text)\<close>; and although the cursor can be negative at
  the head of the loop, an iteration entered with a negative cursor records no window.
\<close>

theorem offsets_well_formed:
  assumes "0 < cs" and "0 \<le> ov" and "ov < cs"
  shows "(sliding_window_chunk (VStr tx) cs ov = Some (Inr chunks) \<longrightarrow>
           (\<forall>c\<in>set chunks. 0 \<le> start_char c \<and> start_char c < end_char c \<and>
                            end_char c \<le> int (length tx))) \<and>
         (reachable tx cs ov s \<longrightarrow> fst s < 0 \<longrightarrow>
            snd (snd (loop_body tx cs ov s)) = snd (snd s))"
proof (intro conjI impI ballI)
  fix c
  assume r: "sliding_window_chunk (VStr tx) cs ov = Some (Inr chunks)" and c: "c \<in> set chunks"
  from sliding_window_chunk_returns [OF r] c
  obtain s' where s: "reachable tx cs ov s'" "chunks = snd (snd s')" by auto
  from reachable_wellformed [OF s(1) assms] s(2) c
  show "0 \<le> start_char c" "start_char c < end_char c" "end_char c \<le> int (length tx)"
    by auto
next
  assume r: "reachable tx cs ov s" and n: "fst s < 0"
  from reachable_wellformed [OF r assms] n
  have neg: "fst s < 0" "- ov \<le> fst s" "ov < cs" "cs < int (length tx)"
    using assms by auto
  have "strip (py_slice tx (fst s) (window_end tx cs (fst s))) = []"
    by (simp add: slice_negative [OF neg] strip_def)
  then show "snd (snd (loop_body tx cs ov s)) = snd (snd s)"
    by (simp add: loop_body_chunks)
qed

text \<open>
  An instance with chunk size 10 and overlap 2: the first window ends at the newline at
  offset 1, the cursor becomes \<open>-1\<close>, the iteration from there records nothing, and the
  call returns two windows.
\<close>

theorem offsets_well_formed_witness:
  "fst (loop_body (''a'' @ [CHR 0x0A] @ ''bcdefghijklmnop'') 10 2 (0, 0, [])) = - 1 \<and>
   snd (snd (loop_body (''a'' @ [CHR 0x0A] @ ''bcdefghijklmnop'') 10 2
               (loop_body (''a'' @ [CHR 0x0A] @ ''bcdefghijklmnop'') 10 2 (0, 0, [])))) =
   snd (snd (loop_body (''a'' @ [CHR 0x0A] @ ''bcdefghijklmnop'') 10 2 (0, 0, []))) \<and>
   sliding_window_chunk (VStr (''a'' @ [CHR 0x0A] @ ''bcdefghijklmnop'')) 10 2 =
     Some (Inr [\<lparr>content = ''a'', start_char = 0, end_char = 1, chunk_index = 0\<rparr>,
                \<lparr>content = ''ghijklmnop'', start_char = 7, end_char = 17, chunk_index = 1\<rparr>]) \<and>
   (0 :: int) \<le> 7 \<and> (7 :: int) < 17 \<and> (17 :: int) \<le> int (length (''a'' @ [CHR 0x0A] @ ''bcdefghijklmnop''))"
proof -
  let ?T = "''a'' @ [CHR 0x0A] @ ''bcdefghijklmnop''"
  have r: "sliding_window_chunk (VStr ?T) 10 2 =
     Some (Inr [\<lparr>content = ''a'', start_char = 0, end_char = 1, chunk_index = 0\<rparr>,
                \<lparr>content = ''ghijklmnop'', start_char = 7, end_char = 17, chunk_index = 1\<rparr>])"
    by code_simp
  have v: "(0 :: int) < 10" "(0 :: int) \<le> 2" "(2 :: int) < 10" by simp_all
  have f: "fst (loop_body ?T 10 2 (0, 0, [])) = - 1" by code_simp
  have "fst (0 :: int, 0 :: int, [] :: raw_chunk list) < int (length ?T)" by simp
  with reach_init have reach: "reachable ?T 10 2 (loop_body ?T 10 2 (0, 0, []))"
    by (rule reach_step)
  from offsets_well_formed [OF v, of ?T _ "loop_body ?T 10 2 (0, 0, [])"] r reach f
  show ?thesis by simp
qed

end
